theory Spec2Isabelle
  imports Main
begin

text \<open>
  A shallow embedding of \<^verbatim>\<open>Campusil_next.py_Solution.py\<close>: the validator
  \<^verbatim>\<open>check_id_valid\<close>, the iterator class \<^verbatim>\<open>IDIterator\<close> and the generator
  function \<^verbatim>\<open>id_generator\<close>. Identification numbers are Python integers (\<open>int\<close>),
  as the docstrings say; an exception is a value \<open>Inl e\<close> of a sum type; the two loops
  are partial functions into \<open>option\<close>, so that a loop that never returns has the value
  \<open>None\<close> and returning is something to prove.
\<close>

section \<open>Python values used by the program\<close>

text \<open>
  The two exceptions the code raises or lets through. \<open>ValueError\<close> is the invalid-input
  error; \<open>StopIteration\<close> is what a finished generator answers to \<^verbatim>\<open>next\<close>.
\<close>

datatype exn = ValueError | StopIteration

text \<open>
  \<^verbatim>\<open>str(n)\<close> of an integer: its decimal digits without leading zeros, after a minus
  sign when it is negative. \<^verbatim>\<open>s.isnumeric()\<close> on such a string: it is not empty and all
  its characters are digits. \<^verbatim>\<open>int(digit)\<close> of a digit character is its code minus
  the code of \<^verbatim>\<open>0\<close>; it is only applied after the \<^verbatim>\<open>isnumeric\<close> check.
\<close>

definition digit_char :: "nat \<Rightarrow> char" where
  "digit_char d = ''0123456789'' ! d"

function str_nat :: "nat \<Rightarrow> string" where
  "str_nat n = (if n < 10 then [digit_char n] else str_nat (n div 10) @ [digit_char (n mod 10)])"
  by pat_completeness auto
termination
  by (relation "measure (\<lambda>n. n)") auto

declare str_nat.simps [simp del]

definition str_int :: "int \<Rightarrow> string" where
  "str_int i = (if i < 0 then CHR ''-'' # str_nat (nat (- i)) else str_nat (nat i))"

definition numeric_char :: "char \<Rightarrow> bool" where
  "numeric_char c = (c \<in> set ''0123456789'')"

definition isnumeric :: "string \<Rightarrow> bool" where
  "isnumeric s = (s \<noteq> [] \<and> list_all numeric_char s)"

definition int_of_char :: "char \<Rightarrow> int" where
  "int_of_char c = int (of_char c) - 48"

section \<open>check_id_valid\<close>

text \<open>
  Lines 32 to 39 of the source. \<open>multiplied_list\<close> doubles the digits whose index
  \<^verbatim>\<open>index + 1\<close> from \<^verbatim>\<open>enumerate\<close> is even; \<open>summed_list\<close> (a number, in spite of its
  name) replaces every entry that is not below 10 by the sum of its two digits and adds the
  entries up.
\<close>

definition multiplied_list :: "string \<Rightarrow> int list" where
  "multiplied_list id_str =
     map (\<lambda>(index, digit). if (index + 1) mod 2 = 0 then int_of_char digit * 2 else int_of_char digit)
         (enumerate 0 id_str)"

definition summed_list :: "int list \<Rightarrow> int" where
  "summed_list ms = sum_list (map (\<lambda>num. if num < 10 then num else (num div 10) + (num mod 10)) ms)"

definition check_id_valid :: "int \<Rightarrow> exn + bool" where
  "check_id_valid id_number =
     (let id_str = str_int id_number in
      if length id_str \<noteq> 9 \<or> \<not> isnumeric id_str then Inl ValueError
      else Inr (summed_list (multiplied_list id_str) mod 10 = 0))"

section \<open>IDIterator\<close>

text \<open>
  The object has the one attribute \<^verbatim>\<open>id_\<close>, here the field \<open>self_id\<close>.
  \<^verbatim>\<open>__init__\<close> stores its argument and checks nothing. \<^verbatim>\<open>__next__\<close> is a
  \<^verbatim>\<open>while True\<close> loop: an exception of \<open>check_id_valid\<close> leaves the loop with the
  cursor as it is at that moment, a valid cursor is returned and stepped, an invalid one is
  stepped and the loop goes on. The result pairs the outcome with the state after the call.
\<close>

record IDIterator =
  self_id :: int

definition IDIterator_init :: "int \<Rightarrow> exn + IDIterator" where
  "IDIterator_init i = Inr \<lparr>self_id = i\<rparr>"

partial_function (option) IDIterator_next :: "IDIterator \<Rightarrow> ((exn + int) \<times> IDIterator) option" where
  "IDIterator_next s =
     (case check_id_valid (self_id s) of
        Inl e \<Rightarrow> Some (Inl e, s)
      | Inr b \<Rightarrow>
          if b then Some (Inr (self_id s), s\<lparr>self_id := self_id s + 1\<rparr>)
          else IDIterator_next (s\<lparr>self_id := self_id s + 1\<rparr>))"

section \<open>id_generator\<close>

text \<open>
  \<^verbatim>\<open>id_generator\<close> contains \<^verbatim>\<open>yield\<close>, so calling it runs none of its body and
  returns a generator object holding the argument (\<open>Created\<close>). The first
  \<^verbatim>\<open>next\<close> runs the length check of line 148 (its \<^verbatim>\<open>isinstance\<close> test holds
  for every integer) and enters the loop of lines 151 to 154; a generator suspended at the
  \<^verbatim>\<open>yield\<close> of \<open>n\<close> resumes with \<^verbatim>\<open>id_number += 1\<close>; a generator whose body has
  ended or raised is \<open>Finished\<close> and answers \<open>StopIteration\<close> from then on.
\<close>

datatype generator = Created int | Suspended int | Finished

definition id_generator :: "int \<Rightarrow> exn + generator" where
  "id_generator id_number = Inr (Created id_number)"

partial_function (option) id_generator_loop :: "int \<Rightarrow> ((exn + int) \<times> generator) option" where
  "id_generator_loop id_number =
     (if id_number \<le> 999999999 then
        (case check_id_valid id_number of
           Inl e \<Rightarrow> Some (Inl e, Finished)
         | Inr b \<Rightarrow>
             if b then Some (Inr id_number, Suspended id_number)
             else id_generator_loop (id_number + 1))
      else Some (Inl StopIteration, Finished))"

definition id_generator_next :: "generator \<Rightarrow> ((exn + int) \<times> generator) option" where
  "id_generator_next g =
     (case g of
        Created id_number \<Rightarrow>
          if length (str_int id_number) \<noteq> 9 then Some (Inl ValueError, Finished)
          else id_generator_loop id_number
      | Suspended id_number \<Rightarrow> id_generator_loop (id_number + 1)
      | Finished \<Rightarrow> Some (Inl StopIteration, Finished))"

section \<open>Repeated requests\<close>

text \<open>
  \<open>k\<close> calls of \<^verbatim>\<open>next\<close> in a row, each on the state the previous call left, with
  the list of their outcomes; \<open>emitted\<close> is the id of an outcome, if it has one, and
  \<open>ids\<close> the ids of a list of outcomes in order.
\<close>

fun IDIterator_run :: "nat \<Rightarrow> IDIterator \<Rightarrow> (exn + int) list option" where
  "IDIterator_run 0 s = Some []"
| "IDIterator_run (Suc k) s =
     (case IDIterator_next s of
        None \<Rightarrow> None
      | Some (r, s') \<Rightarrow>
          (case IDIterator_run k s' of None \<Rightarrow> None | Some rs \<Rightarrow> Some (r # rs)))"

fun id_generator_run :: "nat \<Rightarrow> generator \<Rightarrow> (exn + int) list option" where
  "id_generator_run 0 g = Some []"
| "id_generator_run (Suc k) g =
     (case id_generator_next g of
        None \<Rightarrow> None
      | Some (r, g') \<Rightarrow>
          (case id_generator_run k g' of None \<Rightarrow> None | Some rs \<Rightarrow> Some (r # rs)))"

fun emitted :: "exn + int \<Rightarrow> int option" where
  "emitted (Inl e) = None"
| "emitted (Inr i) = Some i"

fun ids :: "(exn + int) list \<Rightarrow> int list" where
  "ids [] = []"
| "ids (Inl e # rs) = ids rs"
| "ids (Inr i # rs) = i # ids rs"

section \<open>The validator as the specification words it\<close>

text \<open>
  The specification's computation, on the number itself: the digit at position \<open>k\<close>,
  counted from 1 at the left of the nine digits; the digit doubled at an even position; a
  value of at least 10 replaced by the sum of its two decimal digits; the sum over the
  positions 1 to 9; the verdict that the sum is divisible by 10.
\<close>

definition spec_digit :: "int \<Rightarrow> nat \<Rightarrow> int" where
  "spec_digit n k = (n div 10 ^ (9 - k)) mod 10"

definition spec_value :: "int \<Rightarrow> nat \<Rightarrow> int" where
  "spec_value n k =
     (let v = (if even k then 2 * spec_digit n k else spec_digit n k)
      in if 10 \<le> v then v div 10 + v mod 10 else v)"

definition spec_sum :: "int \<Rightarrow> int" where
  "spec_sum n = sum_list (map (spec_value n) [1..<10])"

definition spec_is_valid :: "int \<Rightarrow> bool" where
  "spec_is_valid n = (spec_sum n mod 10 = 0)"

text \<open>
  Two abbreviations used in the proofs: the reduction step of \<open>summed_list\<close> as a
  function of its own, and the contribution of the first eight digits, given as the number
  \<open>q\<close> they form.
\<close>

definition red :: "int \<Rightarrow> int" where
  "red num = (if num < 10 then num else (num div 10) + (num mod 10))"

definition prefix_sum :: "int \<Rightarrow> int" where
  "prefix_sum q = red (q div 10000000 mod 10) + red (2 * (q div 1000000 mod 10))
     + red (q div 100000 mod 10) + red (2 * (q div 10000 mod 10))
     + red (q div 1000 mod 10) + red (2 * (q div 100 mod 10))
     + red (q div 10 mod 10) + red (2 * (q mod 10))"

section \<open>Decimal strings\<close>

lemma str_nat_small: "n < 10 \<Longrightarrow> str_nat n = [digit_char n]"
  by (simp add: str_nat.simps)

lemma str_nat_snoc: "10 \<le> n \<Longrightarrow> str_nat n = str_nat (n div 10) @ [digit_char (n mod 10)]"
  by (subst str_nat.simps) simp

lemma length_str_nat_le: "n < 10 ^ Suc k \<Longrightarrow> length (str_nat n) \<le> Suc k"
proof (induction k arbitrary: n)
  case 0
  then show ?case by (simp add: str_nat_small)
next
  case (Suc k)
  show ?case
  proof (cases "n < 10")
    case True
    then show ?thesis by (simp add: str_nat_small)
  next
    case False
    from Suc.prems have "n div 10 < 10 ^ Suc k" by (simp add: less_mult_imp_div_less)
    from Suc.IH [OF this] False show ?thesis by (simp add: str_nat_snoc)
  qed
qed

lemma length_str_nat_ge: "10 ^ k \<le> n \<Longrightarrow> Suc k \<le> length (str_nat n)"
proof (induction k arbitrary: n)
  case 0
  then show ?case by (cases "n < 10") (simp_all add: str_nat_small str_nat_snoc)
next
  case (Suc k)
  have a: "(10::nat) * 1 \<le> 10 * 10 ^ k" by (rule mult_le_mono2) simp
  from Suc.prems have b: "10 * 10 ^ k \<le> n" by simp
  from order_trans [OF a b] have ge: "10 \<le> n" by simp
  from Suc.prems have "10 ^ k \<le> n div 10" by (simp add: less_eq_div_iff_mult_less_eq)
  from Suc.IH [OF this] ge show ?case by (simp add: str_nat_snoc)
qed

lemma int_of_digit_char: "d < 10 \<Longrightarrow> int_of_char (digit_char d) = int d"
proof -
  assume "d < 10"
  then have "d = 0 \<or> d = 1 \<or> d = 2 \<or> d = 3 \<or> d = 4 \<or> d = 5 \<or> d = 6 \<or> d = 7 \<or> d = 8 \<or> d = 9"
    by arith
  then show ?thesis
    by (auto simp: int_of_char_def digit_char_def)
qed

lemma numeric_char_digit_char: "d < 10 \<Longrightarrow> numeric_char (digit_char d)"
  unfolding digit_char_def numeric_char_def by (rule nth_mem) simp

lemma str_nat_digits: "list_all numeric_char (str_nat n)"
proof (induction n rule: str_nat.induct)
  case (1 n)
  show ?case
  proof (cases "n < 10")
    case True
    then show ?thesis using numeric_char_digit_char [of n] by (simp add: str_nat_small)
  next
    case False
    with 1 have "list_all numeric_char (str_nat (n div 10))" by simp
    moreover have "numeric_char (digit_char (n mod 10))" by (rule numeric_char_digit_char) simp
    ultimately show ?thesis using False by (simp add: str_nat_snoc)
  qed
qed

lemma str_nat_nonempty: "str_nat n \<noteq> []"
  by (cases "n < 10") (simp_all add: str_nat_small str_nat_snoc)

lemma isnumeric_str_nat: "isnumeric (str_nat n)"
  by (simp add: isnumeric_def str_nat_nonempty str_nat_digits)

lemma not_isnumeric_minus: "\<not> isnumeric (CHR ''-'' # s)"
  by (simp add: isnumeric_def numeric_char_def)

lemma str_nat_step:
  assumes "10 * 10 ^ k \<le> n"
  shows "str_nat (n div 10 ^ k) = str_nat (n div 10 ^ Suc k) @ [digit_char (n div 10 ^ k mod 10)]"
proof -
  from assms have "10 \<le> n div 10 ^ k"
    by (simp add: less_eq_div_iff_mult_less_eq)
  then have "str_nat (n div 10 ^ k) = str_nat (n div 10 ^ k div 10) @ [digit_char (n div 10 ^ k mod 10)]"
    by (rule str_nat_snoc)
  moreover have "n div 10 ^ k div 10 = n div (10 ^ k * 10)"
    by (rule div_mult2_eq [symmetric])
  moreover have "(10::nat) ^ k * 10 = 10 ^ Suc k" by simp
  ultimately show ?thesis by simp
qed

lemma str_nat_9:
  assumes "100000000 \<le> n" and "n \<le> 999999999"
  shows "str_nat n =
    [digit_char (n div 100000000), digit_char (n div 10000000 mod 10),
     digit_char (n div 1000000 mod 10), digit_char (n div 100000 mod 10),
     digit_char (n div 10000 mod 10), digit_char (n div 1000 mod 10),
     digit_char (n div 100 mod 10), digit_char (n div 10 mod 10), digit_char (n mod 10)]"
proof -
  have s0: "str_nat n = str_nat (n div 10) @ [digit_char (n mod 10)]"
    using str_nat_step [of 0 n] assms by simp
  have s1: "str_nat (n div 10) = str_nat (n div 100) @ [digit_char (n div 10 mod 10)]"
    using str_nat_step [of 1 n] assms by simp
  have s2: "str_nat (n div 100) = str_nat (n div 1000) @ [digit_char (n div 100 mod 10)]"
    using str_nat_step [of 2 n] assms by simp
  have s3: "str_nat (n div 1000) = str_nat (n div 10000) @ [digit_char (n div 1000 mod 10)]"
    using str_nat_step [of 3 n] assms by simp
  have s4: "str_nat (n div 10000) = str_nat (n div 100000) @ [digit_char (n div 10000 mod 10)]"
    using str_nat_step [of 4 n] assms by simp
  have s5: "str_nat (n div 100000) = str_nat (n div 1000000) @ [digit_char (n div 100000 mod 10)]"
    using str_nat_step [of 5 n] assms by simp
  have s6: "str_nat (n div 1000000) = str_nat (n div 10000000) @ [digit_char (n div 1000000 mod 10)]"
    using str_nat_step [of 6 n] assms by simp
  have s7: "str_nat (n div 10000000) = str_nat (n div 100000000) @ [digit_char (n div 10000000 mod 10)]"
    using str_nat_step [of 7 n] assms by simp
  have "n div 100000000 < 10" using assms by simp
  then have s8: "str_nat (n div 100000000) = [digit_char (n div 100000000)]"
    by (rule str_nat_small)
  show ?thesis
    unfolding s0 s1 s2 s3 s4 s5 s6 s7 s8 by simp
qed

lemma spec_sum_unfold:
  "spec_sum n = sum_list (map (spec_value n) [1, 2, 3, 4, 5, 6, 7, 8, 9])"
proof -
  have "[1..<10] = [1, 2, 3, 4, 5, 6, 7, 8, 9::nat]" by (simp add: upt_rec)
  then show ?thesis by (simp add: spec_sum_def)
qed

lemma multiplied_list_9:
  "multiplied_list [c1, c2, c3, c4, c5, c6, c7, c8, c9] =
     [int_of_char c1, int_of_char c2 * 2, int_of_char c3, int_of_char c4 * 2, int_of_char c5,
      int_of_char c6 * 2, int_of_char c7, int_of_char c8 * 2, int_of_char c9]"
  by (simp add: multiplied_list_def)

lemma summed_list_red: "summed_list ms = sum_list (map red ms)"
  unfolding summed_list_def red_def ..

lemma spec_value_red:
  "spec_value n k = red (if even k then 2 * spec_digit n k else spec_digit n k)"
  unfolding spec_value_def red_def Let_def by (simp add: not_le)

lemma spec_sum_red:
  "spec_sum n = red (n div 100000000 mod 10) + red (2 * (n div 10000000 mod 10))
     + red (n div 1000000 mod 10) + red (2 * (n div 100000 mod 10))
     + red (n div 10000 mod 10) + red (2 * (n div 1000 mod 10))
     + red (n div 100 mod 10) + red (2 * (n div 10 mod 10)) + red (n mod 10)"
  unfolding spec_sum_unfold spec_value_red
  by (simp add: spec_digit_def)

lemma code_sum_red:
  assumes m: "100000000 \<le> m" "m \<le> 999999999"
  shows "summed_list (multiplied_list (str_nat m)) =
     red (int (m div 100000000)) + red (int (m div 10000000 mod 10) * 2)
     + red (int (m div 1000000 mod 10)) + red (int (m div 100000 mod 10) * 2)
     + red (int (m div 10000 mod 10)) + red (int (m div 1000 mod 10) * 2)
     + red (int (m div 100 mod 10)) + red (int (m div 10 mod 10) * 2) + red (int (m mod 10))"
proof -
  have "m div 100000000 < 10" using m by simp
  then show ?thesis
    unfolding str_nat_9 [OF m] multiplied_list_9 summed_list_red
    by (simp add: int_of_digit_char)
qed

lemma check_id_valid_in_range:
  assumes "100000000 \<le> n" and "n \<le> 999999999"
  shows "check_id_valid n = Inr (spec_is_valid n)"
proof -
  define m where "m = nat n"
  have n: "n = int m" and m: "100000000 \<le> m" "m \<le> 999999999"
    using assms by (simp_all add: m_def)
  have "m div 100000000 < 10" using m by simp
  then have d: "int (m div 100000000) = n div 100000000 mod 10"
    by (simp add: n zdiv_int [symmetric] zmod_int [symmetric] del: of_nat_div of_nat_mod)
  have s: "str_int n = str_nat m" using assms by (simp add: str_int_def m_def)
  have l: "length (str_nat m) = 9" unfolding str_nat_9 [OF m] by simp
  have "summed_list (multiplied_list (str_nat m)) = spec_sum n"
    unfolding code_sum_red [OF m] spec_sum_red d
    by (simp add: n zdiv_int zmod_int mult.commute)
  then show ?thesis
    unfolding check_id_valid_def s Let_def spec_is_valid_def
    by (simp add: l isnumeric_str_nat)
qed

section \<open>Stepping the two forward searches\<close>

lemma check_id_valid_error_iff:
  "check_id_valid n = Inl ValueError \<longleftrightarrow> n < 100000000 \<or> 999999999 < n"
proof (cases "100000000 \<le> n \<and> n \<le> 999999999")
  case True
  then show ?thesis by (simp add: check_id_valid_in_range)
next
  case False
  show ?thesis
  proof (cases "n < 0")
    case True
    then show ?thesis by (simp add: check_id_valid_def str_int_def not_isnumeric_minus)
  next
    case nonneg: False
    have "length (str_nat (nat n)) \<noteq> 9"
    proof
      assume l: "length (str_nat (nat n)) = 9"
      have "\<not> nat n < 10 ^ Suc 7" using length_str_nat_le [of "nat n" 7] l by auto
      then have "100000000 \<le> nat n" by simp
      moreover have "\<not> 10 ^ 9 \<le> nat n" using length_str_nat_ge [of 9 "nat n"] l by auto
      then have "nat n \<le> 999999999" by simp
      ultimately show False using False nonneg by linarith
    qed
    moreover from False have "n < 100000000 \<or> 999999999 < n" by linarith
    ultimately show ?thesis using nonneg
      by (simp add: check_id_valid_def str_int_def)
  qed
qed

lemma check_id_valid_exn: "check_id_valid n = Inl e \<Longrightarrow> e = ValueError"
  by (auto simp: check_id_valid_def Let_def split: if_splits)

lemma IDIterator_next_error:
  "self_id s < 100000000 \<or> 999999999 < self_id s \<Longrightarrow> IDIterator_next s = Some (Inl ValueError, s)"
  by (subst IDIterator_next.simps) (simp add: check_id_valid_error_iff [symmetric])

lemma IDIterator_next_valid:
  "check_id_valid (self_id s) = Inr True \<Longrightarrow>
     IDIterator_next s = Some (Inr (self_id s), s\<lparr>self_id := self_id s + 1\<rparr>)"
  by (subst IDIterator_next.simps) simp

lemma IDIterator_next_skip:
  "check_id_valid (self_id s) = Inr False \<Longrightarrow>
     IDIterator_next s = IDIterator_next (s\<lparr>self_id := self_id s + 1\<rparr>)"
  by (subst IDIterator_next.simps) simp

lemma id_generator_loop_end:
  "999999999 < n \<Longrightarrow> id_generator_loop n = Some (Inl StopIteration, Finished)"
  by (subst id_generator_loop.simps) simp

lemma id_generator_loop_error:
  "n < 100000000 \<Longrightarrow> id_generator_loop n = Some (Inl ValueError, Finished)"
  by (subst id_generator_loop.simps) (simp add: check_id_valid_error_iff [THEN iffD2])

lemma id_generator_loop_valid:
  "check_id_valid n = Inr True \<Longrightarrow> n \<le> 999999999 \<Longrightarrow>
     id_generator_loop n = Some (Inr n, Suspended n)"
  by (subst id_generator_loop.simps) simp

lemma id_generator_loop_skip:
  "check_id_valid n = Inr False \<Longrightarrow> id_generator_loop n = id_generator_loop (n + 1)"
proof -
  assume a: "check_id_valid n = Inr False"
  then have "check_id_valid n \<noteq> Inl ValueError" by simp
  then have "n \<le> 999999999" unfolding check_id_valid_error_iff by simp
  with a show ?thesis by (subst id_generator_loop.simps) simp
qed


lemma scan_from:
  assumes "100000000 \<le> c" and "c \<le> 1000000000"
  shows "(\<exists>r. c \<le> r \<and> r \<le> 999999999 \<and> check_id_valid r = Inr True
            \<and> (\<forall>k. c \<le> k \<and> k < r \<longrightarrow> check_id_valid k = Inr False)
            \<and> IDIterator_next \<lparr>self_id = c\<rparr> = Some (Inr r, \<lparr>self_id = r + 1\<rparr>)
            \<and> id_generator_loop c = Some (Inr r, Suspended r))
       \<or> ((\<forall>k. c \<le> k \<and> k \<le> 999999999 \<longrightarrow> check_id_valid k = Inr False)
            \<and> IDIterator_next \<lparr>self_id = c\<rparr> = Some (Inl ValueError, \<lparr>self_id = 1000000000\<rparr>)
            \<and> id_generator_loop c = Some (Inl StopIteration, Finished))"
  using assms
proof (induction "nat (1000000000 - c)" arbitrary: c)
  case 0
  then have c: "c = 1000000000" by simp
  have "IDIterator_next \<lparr>self_id = c\<rparr> = Some (Inl ValueError, \<lparr>self_id = c\<rparr>)"
    by (rule IDIterator_next_error) (simp add: c)
  moreover have "id_generator_loop c = Some (Inl StopIteration, Finished)"
    by (rule id_generator_loop_end) (simp add: c)
  moreover have "\<forall>k. c \<le> k \<and> k \<le> 999999999 \<longrightarrow> check_id_valid k = Inr False"
  proof (intro allI impI)
    fix k :: int
    assume "c \<le> k \<and> k \<le> 999999999"
    with c have False by linarith
    then show "check_id_valid k = Inr False" ..
  qed
  ultimately show ?case unfolding c by blast
next
  case (Suc d)
  then have range: "100000000 \<le> c" "c \<le> 999999999" by linarith+
  show ?case
  proof (cases "check_id_valid c = Inr True")
    case True
    have "IDIterator_next \<lparr>self_id = c\<rparr> = Some (Inr c, \<lparr>self_id = c + 1\<rparr>)"
      using IDIterator_next_valid [of "\<lparr>self_id = c\<rparr>"] True by simp
    moreover have "id_generator_loop c = Some (Inr c, Suspended c)"
      using True range by (simp add: id_generator_loop_valid)
    ultimately have "c \<le> c \<and> c \<le> 999999999 \<and> check_id_valid c = Inr True
            \<and> (\<forall>k. c \<le> k \<and> k < c \<longrightarrow> check_id_valid k = Inr False)
            \<and> IDIterator_next \<lparr>self_id = c\<rparr> = Some (Inr c, \<lparr>self_id = c + 1\<rparr>)
            \<and> id_generator_loop c = Some (Inr c, Suspended c)"
      using range True by auto
    then show ?thesis by blast
  next
    case False
    with range have no: "check_id_valid c = Inr False"
      by (simp add: check_id_valid_in_range)
    have it: "IDIterator_next \<lparr>self_id = c\<rparr> = IDIterator_next \<lparr>self_id = c + 1\<rparr>"
      using IDIterator_next_skip [of "\<lparr>self_id = c\<rparr>"] no by simp
    have gen: "id_generator_loop c = id_generator_loop (c + 1)"
      using no by (rule id_generator_loop_skip)
    have low: "\<And>k r. c \<le> k \<Longrightarrow> (c + 1 \<le> k \<Longrightarrow> check_id_valid k = Inr False)
                 \<Longrightarrow> check_id_valid k = Inr False"
    proof -
      fix k :: int and r :: int
      assume "c \<le> k" and h: "c + 1 \<le> k \<Longrightarrow> check_id_valid k = Inr False"
      then show "check_id_valid k = Inr False"
        using no by (cases "k = c") auto
    qed
    have "d = nat (1000000000 - (c + 1))" using Suc.hyps(2) by linarith
    moreover have "100000000 \<le> c + 1" "c + 1 \<le> 1000000000" using range by linarith+
    ultimately have IH: "(\<exists>r. c + 1 \<le> r \<and> r \<le> 999999999 \<and> check_id_valid r = Inr True
            \<and> (\<forall>k. c + 1 \<le> k \<and> k < r \<longrightarrow> check_id_valid k = Inr False)
            \<and> IDIterator_next \<lparr>self_id = c + 1\<rparr> = Some (Inr r, \<lparr>self_id = r + 1\<rparr>)
            \<and> id_generator_loop (c + 1) = Some (Inr r, Suspended r))
       \<or> ((\<forall>k. c + 1 \<le> k \<and> k \<le> 999999999 \<longrightarrow> check_id_valid k = Inr False)
            \<and> IDIterator_next \<lparr>self_id = c + 1\<rparr> = Some (Inl ValueError, \<lparr>self_id = 1000000000\<rparr>)
            \<and> id_generator_loop (c + 1) = Some (Inl StopIteration, Finished))"
      by (rule Suc.hyps(1))
    then show ?thesis
    proof
      assume "\<exists>r. c + 1 \<le> r \<and> r \<le> 999999999 \<and> check_id_valid r = Inr True
            \<and> (\<forall>k. c + 1 \<le> k \<and> k < r \<longrightarrow> check_id_valid k = Inr False)
            \<and> IDIterator_next \<lparr>self_id = c + 1\<rparr> = Some (Inr r, \<lparr>self_id = r + 1\<rparr>)
            \<and> id_generator_loop (c + 1) = Some (Inr r, Suspended r)"
      then obtain r where r: "c + 1 \<le> r" "r \<le> 999999999" "check_id_valid r = Inr True"
            "\<forall>k. c + 1 \<le> k \<and> k < r \<longrightarrow> check_id_valid k = Inr False"
            "IDIterator_next \<lparr>self_id = c + 1\<rparr> = Some (Inr r, \<lparr>self_id = r + 1\<rparr>)"
            "id_generator_loop (c + 1) = Some (Inr r, Suspended r)"
        by blast
      have "\<forall>k. c \<le> k \<and> k < r \<longrightarrow> check_id_valid k = Inr False"
        using r(4) low by blast
      moreover have "c \<le> r" using r(1) by linarith
      ultimately show ?thesis using r it gen by auto
    next
      assume e: "(\<forall>k. c + 1 \<le> k \<and> k \<le> 999999999 \<longrightarrow> check_id_valid k = Inr False)
            \<and> IDIterator_next \<lparr>self_id = c + 1\<rparr> = Some (Inl ValueError, \<lparr>self_id = 1000000000\<rparr>)
            \<and> id_generator_loop (c + 1) = Some (Inl StopIteration, Finished)"
      then have "\<forall>k. c \<le> k \<and> k \<le> 999999999 \<longrightarrow> check_id_valid k = Inr False"
        using low by blast
      then show ?thesis using e it gen by simp
    qed
  qed
qed

lemma IDIterator_run_past_bound:
  "999999999 < self_id s \<Longrightarrow> IDIterator_run K s = Some (replicate K (Inl ValueError))"
  by (induction K) (simp_all add: IDIterator_next_error)

text \<open>
  C1: for every id with exactly nine decimal digits, \<open>check_id_valid\<close> returns the verdict
  of the specification's computation: digits indexed 1 to 9 from the left, the digits at even
  positions doubled, every value of at least 10 replaced by the sum of its two digits, and the
  nine values summed; the verdict is that the sum is divisible by 10.
\<close>

theorem check_id_valid_spec:
  "100000000 \<le> n \<Longrightarrow> n \<le> 999999999 \<Longrightarrow> check_id_valid n = Inr (spec_is_valid n)"
  by (rule check_id_valid_in_range)

theorem check_id_valid_spec_witness:
  "(100000000::int) \<le> 100000041 \<and> (100000041::int) \<le> 999999999
     \<and> check_id_valid 100000041 = Inr (spec_is_valid 100000041)
     \<and> spec_is_valid 100000041"
proof -
  have h1: "(100000000::int) \<le> 100000041" and h2: "(100000041::int) \<le> 999999999" by simp_all
  have "spec_is_valid 100000041"
    by (simp add: spec_is_valid_def spec_sum_red red_def)
  with check_id_valid_spec [OF h1 h2] h1 h2 show ?thesis by simp
qed

text \<open>
  C7: for every integer outside 100000000..999999999 (negative numbers, numbers of fewer
  than nine digits, numbers of more than nine digits) \<open>check_id_valid\<close> raises the
  invalid-input error, a \<open>ValueError\<close>, and returns no verdict.
\<close>

theorem check_id_valid_rejects:
  "n < 100000000 \<or> 999999999 < n \<Longrightarrow> check_id_valid n = Inl ValueError"
  by (simp add: check_id_valid_error_iff)

theorem check_id_valid_rejects_witness:
  "((-12345678::int) < 100000000 \<or> (999999999::int) < -12345678)
     \<and> check_id_valid (-12345678) = Inl ValueError"
proof -
  have h: "(-12345678::int) < 100000000 \<or> (999999999::int) < -12345678" by simp
  from check_id_valid_rejects [OF h] h show ?thesis by simp
qed

text \<open>
  C10: once the cursor of an \<open>IDIterator\<close> is above 999999999, a call of
  \<open>__next__\<close> raises the \<open>ValueError\<close> of \<open>check_id_valid\<close> and leaves the
  cursor as it was, so any number of further calls fail in the same way.
\<close>

theorem IDIterator_next_past_bound:
  "999999999 < self_id s \<Longrightarrow>
     IDIterator_next s = Some (Inl ValueError, s)
     \<and> IDIterator_run K s = Some (replicate K (Inl ValueError))"
  by (simp add: IDIterator_next_error IDIterator_run_past_bound)

theorem IDIterator_next_past_bound_witness:
  "(999999999::int) < self_id \<lparr>self_id = 1000000000\<rparr>
     \<and> IDIterator_next \<lparr>self_id = 1000000000\<rparr> = Some (Inl ValueError, \<lparr>self_id = 1000000000\<rparr>)
     \<and> IDIterator_run 3 \<lparr>self_id = 1000000000\<rparr> = Some [Inl ValueError, Inl ValueError, Inl ValueError]"
proof -
  have h: "(999999999::int) < self_id \<lparr>self_id = 1000000000\<rparr>" by simp
  have r: "replicate 3 (Inl ValueError :: exn + int) = [Inl ValueError, Inl ValueError, Inl ValueError]"
    by (simp add: numeral_3_eq_3)
  from IDIterator_next_past_bound [OF h, of 3] h show ?thesis unfolding r by simp
qed

lemma IDIterator_eq: "\<lparr>self_id = self_id s\<rparr> = (s :: IDIterator)"
  by simp

lemma IDIterator_next_returns: "\<exists>y. IDIterator_next s = Some y"
proof (cases "self_id s < 100000000 \<or> 999999999 < self_id s")
  case True
  then show ?thesis by (simp add: IDIterator_next_error)
next
  case False
  then have "100000000 \<le> self_id s" "self_id s \<le> 1000000000" by linarith+
  from scan_from [OF this] show ?thesis unfolding IDIterator_eq by blast
qed

lemma id_generator_loop_returns: "\<exists>y. id_generator_loop n = Some y"
proof (cases "n < 100000000")
  case True
  then show ?thesis by (simp add: id_generator_loop_error)
next
  case low: False
  show ?thesis
  proof (cases "999999999 < n")
    case True
    then show ?thesis by (simp add: id_generator_loop_end)
  next
    case False
    with low have "100000000 \<le> n" "n \<le> 1000000000" by linarith+
    from scan_from [OF this] show ?thesis by blast
  qed
qed

lemma id_generator_next_returns: "\<exists>y. id_generator_next g = Some y"
  by (cases g) (simp_all del: split_paired_Ex add: id_generator_next_def id_generator_loop_returns)

lemma length_str_int_in_range:
  "100000000 \<le> n \<Longrightarrow> n \<le> 999999999 \<Longrightarrow> length (str_int n) = 9"
  using str_nat_9 [of "nat n"] by (simp add: str_int_def)

lemma length_str_int_9_upper:
  assumes "length (str_int n) = 9"
  shows "n \<le> 999999999"
proof (cases "n < 0")
  case True
  then show ?thesis by simp
next
  case False
  with assms have l: "length (str_nat (nat n)) = 9" by (simp add: str_int_def)
  have "\<not> 10 ^ 9 \<le> nat n" using length_str_nat_ge [of 9 "nat n"] l by auto
  then show ?thesis by simp
qed

lemma id_generator_next_invalid_start:
  assumes "n < 100000000 \<or> 999999999 < n"
  shows "id_generator_next (Created n) = Some (Inl ValueError, Finished)"
proof (cases "length (str_int n) = 9")
  case True
  from length_str_int_9_upper [OF this] assms have "n < 100000000" by linarith
  then show ?thesis using True by (simp add: id_generator_next_def id_generator_loop_error)
next
  case False
  then show ?thesis by (simp add: id_generator_next_def)
qed

lemma check_999999999: "check_id_valid 999999999 = Inr False"
  by (simp add: check_id_valid_in_range spec_is_valid_def spec_sum_red red_def)

text \<open>
  C8: every single advance returns: for every cursor value \<open>IDIterator.__next__\<close>
  completes, and for every state of the generator one pull from \<open>id_generator\<close> completes.
\<close>

theorem forward_search_step_terminates:
  "(\<exists>y. IDIterator_next s = Some y) \<and> (\<exists>y. id_generator_next g = Some y)"
proof
  show "\<exists>y. IDIterator_next s = Some y" by (rule IDIterator_next_returns)
  show "\<exists>y. id_generator_next g = Some y" by (rule id_generator_next_returns)
qed

text \<open>
  C5, at the failing input 999999999: the generator signals exhaustion with
  \<open>StopIteration\<close>, while \<open>IDIterator.__next__\<close> steps the cursor past the bound and then
  raises the \<open>ValueError\<close> of \<open>check_id_valid\<close>.
\<close>

theorem IDIterator_next_at_upper_bound:
  "IDIterator_next \<lparr>self_id = 999999999\<rparr> = Some (Inl ValueError, \<lparr>self_id = 1000000000\<rparr>)
     \<and> id_generator_next (Created 999999999) = Some (Inl StopIteration, Finished)"
proof -
  have "IDIterator_next \<lparr>self_id = 999999999\<rparr> = IDIterator_next \<lparr>self_id = 1000000000\<rparr>"
    using IDIterator_next_skip [of "\<lparr>self_id = 999999999\<rparr>"] check_999999999 by simp
  also have "\<dots> = Some (Inl ValueError, \<lparr>self_id = 1000000000\<rparr>)"
    by (rule IDIterator_next_error) simp
  finally have it: "IDIterator_next \<lparr>self_id = 999999999\<rparr> = Some (Inl ValueError, \<lparr>self_id = 1000000000\<rparr>)" .
  have "id_generator_loop 999999999 = id_generator_loop (999999999 + 1)"
    using check_999999999 by (rule id_generator_loop_skip)
  also have "\<dots> = Some (Inl StopIteration, Finished)"
    by (rule id_generator_loop_end) simp
  finally have "id_generator_next (Created 999999999) = Some (Inl StopIteration, Finished)"
    by (simp add: id_generator_next_def length_str_int_in_range)
  with it show ?thesis by simp
qed

text \<open>
  C4, as stated, fails at the start 5: it has one digit, and both constructions succeed.
\<close>

theorem construction_accepts_invalid_start:
  "\<not> (100000000 \<le> (5::int) \<and> (5::int) \<le> 999999999)
     \<and> IDIterator_init 5 = Inr \<lparr>self_id = 5\<rparr>
     \<and> id_generator 5 = Inr (Created 5)"
  by (simp add: IDIterator_init_def id_generator_def)

text \<open>
  C4, amended: for every integer start outside 100000000..999999999 both constructions
  succeed without checking the start, and the start is rejected with the invalid-input error
  (\<open>ValueError\<close>) by the first request: the first \<open>__next__\<close> of the iterator, which
  leaves the cursor unchanged, and the first pull from the generator, which is then finished.
  No id is emitted before the error.
\<close>

theorem invalid_start_rejected_on_first_request:
  "n < 100000000 \<or> 999999999 < n \<Longrightarrow>
     IDIterator_init n = Inr \<lparr>self_id = n\<rparr>
     \<and> IDIterator_next \<lparr>self_id = n\<rparr> = Some (Inl ValueError, \<lparr>self_id = n\<rparr>)
     \<and> id_generator n = Inr (Created n)
     \<and> id_generator_next (Created n) = Some (Inl ValueError, Finished)"
  by (simp add: IDIterator_init_def id_generator_def IDIterator_next_error
      id_generator_next_invalid_start)

theorem invalid_start_rejected_on_first_request_witness:
  "((-12345678::int) < 100000000 \<or> (999999999::int) < -12345678)
     \<and> IDIterator_init (-12345678) = Inr \<lparr>self_id = -12345678\<rparr>
     \<and> IDIterator_next \<lparr>self_id = -12345678\<rparr> = Some (Inl ValueError, \<lparr>self_id = -12345678\<rparr>)
     \<and> id_generator (-12345678) = Inr (Created (-12345678))
     \<and> id_generator_next (Created (-12345678)) = Some (Inl ValueError, Finished)"
proof -
  have h: "(-12345678::int) < 100000000 \<or> (999999999::int) < -12345678" by simp
  from invalid_start_rejected_on_first_request [OF h] h show ?thesis by simp
qed

lemma valid_upper: "check_id_valid m = Inr True \<Longrightarrow> 100000000 \<le> m \<and> m \<le> 999999999"
proof -
  assume "check_id_valid m = Inr True"
  then have "check_id_valid m \<noteq> Inl ValueError" by simp
  then show ?thesis unfolding check_id_valid_error_iff by linarith
qed

lemma scan_first:
  assumes "100000000 \<le> s" and "s \<le> m" and "check_id_valid m = Inr True"
  shows "\<exists>r. s \<le> r \<and> r \<le> m \<and> check_id_valid r = Inr True
           \<and> (\<forall>k. s \<le> k \<and> k < r \<longrightarrow> check_id_valid k = Inr False)
           \<and> IDIterator_next \<lparr>self_id = s\<rparr> = Some (Inr r, \<lparr>self_id = r + 1\<rparr>)
           \<and> id_generator_loop s = Some (Inr r, Suspended r)"
proof -
  from valid_upper [OF assms(3)] have m: "m \<le> 999999999" by simp
  with assms(2) have "s \<le> 1000000000" by linarith
  from scan_from [OF assms(1) this] show ?thesis
  proof
    assume "\<exists>r. s \<le> r \<and> r \<le> 999999999 \<and> check_id_valid r = Inr True
            \<and> (\<forall>k. s \<le> k \<and> k < r \<longrightarrow> check_id_valid k = Inr False)
            \<and> IDIterator_next \<lparr>self_id = s\<rparr> = Some (Inr r, \<lparr>self_id = r + 1\<rparr>)
            \<and> id_generator_loop s = Some (Inr r, Suspended r)"
    then obtain r where r: "s \<le> r" "check_id_valid r = Inr True"
        "\<forall>k. s \<le> k \<and> k < r \<longrightarrow> check_id_valid k = Inr False"
        "IDIterator_next \<lparr>self_id = s\<rparr> = Some (Inr r, \<lparr>self_id = r + 1\<rparr>)"
        "id_generator_loop s = Some (Inr r, Suspended r)"
      by blast
    have "r \<le> m"
    proof (rule ccontr)
      assume "\<not> r \<le> m"
      with assms(2) r(3) have "check_id_valid m = Inr False" by simp
      with assms(3) show False by simp
    qed
    with r show ?thesis by blast
  next
    assume "(\<forall>k. s \<le> k \<and> k \<le> 999999999 \<longrightarrow> check_id_valid k = Inr False)
            \<and> IDIterator_next \<lparr>self_id = s\<rparr> = Some (Inl ValueError, \<lparr>self_id = 1000000000\<rparr>)
            \<and> id_generator_loop s = Some (Inl StopIteration, Finished)"
    with assms(2) m have "check_id_valid m = Inr False" by simp
    with assms(3) show ?thesis by simp
  qed
qed

lemma valid_100000009: "check_id_valid 100000009 = Inr True"
  by (simp add: check_id_valid_in_range spec_is_valid_def spec_sum_red red_def)

text \<open>
  C2: for a nine-digit start \<open>s\<close> at or below some valid id, the first id returned by the
  forward search started at \<open>s\<close> (the first \<open>__next__\<close> of \<open>IDIterator(s)\<close>, the first
  pull from \<open>id_generator(s)\<close>) is the smallest valid id that is at least \<open>s\<close>; after the
  emission the iterator's cursor is that id plus one, and the suspended generator resumes
  its scan at that id plus one.
\<close>

theorem first_emitted_is_least_valid:
  assumes "100000000 \<le> s" and "s \<le> m" and "check_id_valid m = Inr True"
    and "IDIterator_init s = Inr it" and "id_generator s = Inr g"
  shows "\<exists>r. s \<le> r \<and> r \<le> m \<and> check_id_valid r = Inr True
           \<and> (\<forall>k. s \<le> k \<and> k < r \<longrightarrow> check_id_valid k \<noteq> Inr True)
           \<and> IDIterator_next it = Some (Inr r, \<lparr>self_id = r + 1\<rparr>)
           \<and> id_generator_next g = Some (Inr r, Suspended r)
           \<and> id_generator_next (Suspended r) = id_generator_loop (r + 1)"
proof -
  from assms(4) have it: "it = \<lparr>self_id = s\<rparr>" by (simp add: IDIterator_init_def)
  from assms(5) have g: "g = Created s" by (simp add: id_generator_def)
  from valid_upper [OF assms(3)] assms(2) have "s \<le> 999999999" by linarith
  with assms(1) have l: "length (str_int s) = 9" by (rule length_str_int_in_range)
  from scan_first [OF assms(1-3)] obtain r where r: "s \<le> r" "r \<le> m" "check_id_valid r = Inr True"
      "\<forall>k. s \<le> k \<and> k < r \<longrightarrow> check_id_valid k = Inr False"
      "IDIterator_next \<lparr>self_id = s\<rparr> = Some (Inr r, \<lparr>self_id = r + 1\<rparr>)"
      "id_generator_loop s = Some (Inr r, Suspended r)"
    by blast
  from r(4) have "\<forall>k. s \<le> k \<and> k < r \<longrightarrow> check_id_valid k \<noteq> Inr True" by simp
  moreover have "id_generator_next g = Some (Inr r, Suspended r)"
    using r(6) l by (simp add: g id_generator_next_def)
  moreover have "id_generator_next (Suspended r) = id_generator_loop (r + 1)"
    by (simp add: id_generator_next_def)
  ultimately show ?thesis using r(1-3,5) it by blast
qed

theorem first_emitted_is_least_valid_witness:
  "\<exists>r. (100000000::int) \<le> r \<and> r \<le> 100000009 \<and> check_id_valid r = Inr True
           \<and> (\<forall>k. 100000000 \<le> k \<and> k < r \<longrightarrow> check_id_valid k \<noteq> Inr True)
           \<and> IDIterator_next \<lparr>self_id = 100000000\<rparr> = Some (Inr r, \<lparr>self_id = r + 1\<rparr>)
           \<and> id_generator_next (Created 100000000) = Some (Inr r, Suspended r)
           \<and> id_generator_next (Suspended r) = id_generator_loop (r + 1)"
proof -
  have h1: "(100000000::int) \<le> 100000000" and h2: "(100000000::int) \<le> 100000009" by simp_all
  have h4: "IDIterator_init 100000000 = Inr \<lparr>self_id = 100000000\<rparr>"
    by (simp add: IDIterator_init_def)
  have h5: "id_generator 100000000 = Inr (Created 100000000)"
    by (simp add: id_generator_def)
  show ?thesis
    by (rule first_emitted_is_least_valid [OF h1 h2 valid_100000009 h4 h5])
qed

lemma ids_map_emitted: "ids xs = List.map_filter (\<lambda>x. x) (map emitted xs)"
  by (induction xs rule: ids.induct) (simp_all add: map_filter_simps)

lemma runs_agree_from:
  "100000000 \<le> c \<Longrightarrow> id_generator_next g = id_generator_loop c \<Longrightarrow>
     \<exists>xs ys. IDIterator_run K \<lparr>self_id = c\<rparr> = Some xs \<and> id_generator_run K g = Some ys
        \<and> map emitted xs = map emitted ys"
proof (induction K arbitrary: c g)
  case 0
  show ?case by simp
next
  case (Suc K)
  have fin: "\<And>n. 999999999 < n \<Longrightarrow> id_generator_next Finished = id_generator_loop n"
    by (simp add: id_generator_next_def id_generator_loop_end)
  have sus: "\<And>r. id_generator_next (Suspended r) = id_generator_loop (r + 1)"
    by (simp add: id_generator_next_def)
  show ?case
  proof (cases "999999999 < c")
    case True
    have it: "IDIterator_next \<lparr>self_id = c\<rparr> = Some (Inl ValueError, \<lparr>self_id = c\<rparr>)"
      by (rule IDIterator_next_error) (simp add: True)
    have gen: "id_generator_next g = Some (Inl StopIteration, Finished)"
      using Suc.prems(2) True by (simp add: id_generator_loop_end)
    from Suc.IH [OF Suc.prems(1) fin [OF True]] obtain xs ys where
      "IDIterator_run K \<lparr>self_id = c\<rparr> = Some xs" "id_generator_run K Finished = Some ys"
      "map emitted xs = map emitted ys" by blast
    then show ?thesis using it gen by simp
  next
    case False
    then have "c \<le> 1000000000" by linarith
    from scan_from [OF Suc.prems(1) this] show ?thesis
    proof
      assume "\<exists>r. c \<le> r \<and> r \<le> 999999999 \<and> check_id_valid r = Inr True
            \<and> (\<forall>k. c \<le> k \<and> k < r \<longrightarrow> check_id_valid k = Inr False)
            \<and> IDIterator_next \<lparr>self_id = c\<rparr> = Some (Inr r, \<lparr>self_id = r + 1\<rparr>)
            \<and> id_generator_loop c = Some (Inr r, Suspended r)"
      then obtain r where r: "c \<le> r"
        "IDIterator_next \<lparr>self_id = c\<rparr> = Some (Inr r, \<lparr>self_id = r + 1\<rparr>)"
        "id_generator_loop c = Some (Inr r, Suspended r)" by blast
      from r(1) Suc.prems(1) have "100000000 \<le> r + 1" by linarith
      from Suc.IH [OF this sus] obtain xs ys where
        "IDIterator_run K \<lparr>self_id = r + 1\<rparr> = Some xs" "id_generator_run K (Suspended r) = Some ys"
        "map emitted xs = map emitted ys" by blast
      then show ?thesis using r(2,3) Suc.prems(2) by simp
    next
      assume e: "(\<forall>k. c \<le> k \<and> k \<le> 999999999 \<longrightarrow> check_id_valid k = Inr False)
            \<and> IDIterator_next \<lparr>self_id = c\<rparr> = Some (Inl ValueError, \<lparr>self_id = 1000000000\<rparr>)
            \<and> id_generator_loop c = Some (Inl StopIteration, Finished)"
      have "(100000000::int) \<le> 1000000000" by simp
      from Suc.IH [OF this fin [of 1000000000]] obtain xs ys where
        "IDIterator_run K \<lparr>self_id = 1000000000\<rparr> = Some xs" "id_generator_run K Finished = Some ys"
        "map emitted xs = map emitted ys" by auto
      then show ?thesis using e Suc.prems(2) by simp
    qed
  qed
qed

text \<open>
  C3: for every nine-digit start and every \<open>K\<close>, \<open>K\<close> calls of \<open>__next__\<close> on a fresh
  \<open>IDIterator(start)\<close> and \<open>K\<close> pulls from \<open>id_generator(start)\<close> both complete and
  yield the same ids, position by position and in the same order.
\<close>

theorem iterator_and_generator_agree:
  assumes "100000000 \<le> start" and "start \<le> 999999999"
    and "IDIterator_init start = Inr it" and "id_generator start = Inr g"
  shows "\<exists>xs ys. IDIterator_run K it = Some xs \<and> id_generator_run K g = Some ys
           \<and> map emitted xs = map emitted ys \<and> ids xs = ids ys"
proof -
  from assms(3) have it: "it = \<lparr>self_id = start\<rparr>" by (simp add: IDIterator_init_def)
  from assms(4) have g: "g = Created start" by (simp add: id_generator_def)
  have "id_generator_next g = id_generator_loop start"
    using length_str_int_in_range [OF assms(1,2)] by (simp add: g id_generator_next_def)
  from runs_agree_from [OF assms(1) this, of K] obtain xs ys where
    r: "IDIterator_run K it = Some xs" "id_generator_run K g = Some ys"
    "map emitted xs = map emitted ys" unfolding it by blast
  from r(3) have "ids xs = ids ys" by (simp add: ids_map_emitted)
  with r show ?thesis by blast
qed

theorem iterator_and_generator_agree_witness:
  "\<exists>xs ys. IDIterator_run 2 \<lparr>self_id = 100000000\<rparr> = Some xs
      \<and> id_generator_run 2 (Created 100000000) = Some ys
      \<and> map emitted xs = map emitted ys \<and> ids xs = ids ys"
proof -
  have h1: "(100000000::int) \<le> 100000000" and h2: "(100000000::int) \<le> 999999999" by simp_all
  have h3: "IDIterator_init 100000000 = Inr \<lparr>self_id = 100000000\<rparr>"
    by (simp add: IDIterator_init_def)
  have h4: "id_generator 100000000 = Inr (Created 100000000)"
    by (simp add: id_generator_def)
  show ?thesis
    by (rule iterator_and_generator_agree [OF h1 h2 h3 h4])
qed

lemma IDIterator_next_cases:
  "(\<exists>r. self_id s \<le> r \<and> check_id_valid r = Inr True
        \<and> IDIterator_next s = Some (Inr r, \<lparr>self_id = r + 1\<rparr>))
   \<or> (\<exists>c. self_id s \<le> c \<and> IDIterator_next s = Some (Inl ValueError, \<lparr>self_id = c\<rparr>))"
proof (cases "self_id s < 100000000 \<or> 999999999 < self_id s")
  case True
  then have "IDIterator_next s = Some (Inl ValueError, s)"
    by (rule IDIterator_next_error)
  then have "self_id s \<le> self_id s
      \<and> IDIterator_next s = Some (Inl ValueError, \<lparr>self_id = self_id s\<rparr>)"
    by simp
  then show ?thesis by blast
next
  case False
  then have b: "100000000 \<le> self_id s" "self_id s \<le> 1000000000" by linarith+
  from scan_from [OF b] show ?thesis unfolding IDIterator_eq
  proof (elim disjE exE conjE)
    fix r
    assume "self_id s \<le> r" "check_id_valid r = Inr True"
      "IDIterator_next s = Some (Inr r, \<lparr>self_id = r + 1\<rparr>)"
    then show ?thesis by blast
  next
    assume "IDIterator_next s = Some (Inl ValueError, \<lparr>self_id = 1000000000\<rparr>)"
    with b(2) show ?thesis by blast
  qed
qed

lemma IDIterator_next_emits:
  assumes "IDIterator_next s = Some (Inr r, s')"
  shows "self_id s \<le> r \<and> check_id_valid r = Inr True \<and> s' = \<lparr>self_id = r + 1\<rparr>"
  using IDIterator_next_cases [of s]
proof (elim disjE exE conjE)
  fix q
  assume "self_id s \<le> q" "check_id_valid q = Inr True"
    "IDIterator_next s = Some (Inr q, \<lparr>self_id = q + 1\<rparr>)"
  with assms show ?thesis by auto
next
  fix c
  assume "IDIterator_next s = Some (Inl ValueError, \<lparr>self_id = c\<rparr>)"
  with assms show ?thesis by auto
qed

lemma IDIterator_next_fails:
  assumes "IDIterator_next s = Some (Inl e, s')"
  shows "self_id s \<le> self_id s'"
  using IDIterator_next_cases [of s]
proof (elim disjE exE conjE)
  fix q
  assume "IDIterator_next s = Some (Inr q, \<lparr>self_id = q + 1\<rparr>)"
  with assms show ?thesis by auto
next
  fix c
  assume "self_id s \<le> c" "IDIterator_next s = Some (Inl ValueError, \<lparr>self_id = c\<rparr>)"
  with assms show ?thesis by auto
qed

lemma id_generator_loop_cases:
  "(\<exists>r. n \<le> r \<and> check_id_valid r = Inr True \<and> id_generator_loop n = Some (Inr r, Suspended r))
   \<or> (\<exists>e. id_generator_loop n = Some (Inl e, Finished))"
proof (cases "n < 100000000")
  case True
  then have "id_generator_loop n = Some (Inl ValueError, Finished)"
    by (rule id_generator_loop_error)
  then show ?thesis by blast
next
  case low: False
  show ?thesis
  proof (cases "999999999 < n")
    case True
    then have "id_generator_loop n = Some (Inl StopIteration, Finished)"
      by (rule id_generator_loop_end)
    then show ?thesis by blast
  next
    case False
    with low have "100000000 \<le> n" "n \<le> 1000000000" by linarith+
    from scan_from [OF this] show ?thesis by blast
  qed
qed

lemma id_generator_loop_emits:
  assumes "id_generator_loop n = Some (Inr r, g')"
  shows "n \<le> r \<and> check_id_valid r = Inr True \<and> g' = Suspended r"
  using id_generator_loop_cases [of n]
proof (elim disjE exE conjE)
  fix q
  assume "n \<le> q" "check_id_valid q = Inr True" "id_generator_loop n = Some (Inr q, Suspended q)"
  with assms show ?thesis by auto
next
  fix e
  assume "id_generator_loop n = Some (Inl e, Finished)"
  with assms show ?thesis by auto
qed

lemma id_generator_loop_fails:
  assumes "id_generator_loop n = Some (Inl e, g')"
  shows "g' = Finished"
  using id_generator_loop_cases [of n]
proof (elim disjE exE conjE)
  fix q
  assume "id_generator_loop n = Some (Inr q, Suspended q)"
  with assms show ?thesis by auto
next
  fix e'
  assume "id_generator_loop n = Some (Inl e', Finished)"
  with assms show ?thesis by auto
qed

lemma id_generator_next_emits:
  assumes "id_generator_next g = Some (Inr r, g')"
  shows "check_id_valid r = Inr True \<and> g' = Suspended r
     \<and> (case g of Created n \<Rightarrow> n \<le> r | Suspended n \<Rightarrow> n < r | Finished \<Rightarrow> False)"
proof (cases g)
  case (Created n)
  have "id_generator_loop n = Some (Inr r, g')"
  proof (cases "length (str_int n) = 9")
    case True
    with assms show ?thesis unfolding Created id_generator_next_def by simp
  next
    case False
    with assms show ?thesis unfolding Created id_generator_next_def by simp
  qed
  from id_generator_loop_emits [OF this] show ?thesis unfolding Created by simp
next
  case (Suspended n)
  with assms have "id_generator_loop (n + 1) = Some (Inr r, g')"
    unfolding id_generator_next_def by simp
  from id_generator_loop_emits [OF this] show ?thesis unfolding Suspended by simp
next
  case Finished
  with assms show ?thesis unfolding id_generator_next_def by simp
qed

lemma id_generator_next_fails:
  assumes "id_generator_next g = Some (Inl e, g')"
  shows "g' = Finished"
proof (cases g)
  case (Created n)
  show ?thesis
  proof (cases "length (str_int n) = 9")
    case True
    with assms have "id_generator_loop n = Some (Inl e, g')"
      unfolding Created id_generator_next_def by simp
    then show ?thesis by (rule id_generator_loop_fails)
  next
    case False
    with assms show ?thesis unfolding Created id_generator_next_def by simp
  qed
next
  case (Suspended n)
  with assms have "id_generator_loop (n + 1) = Some (Inl e, g')"
    unfolding id_generator_next_def by simp
  then show ?thesis by (rule id_generator_loop_fails)
next
  case Finished
  with assms show ?thesis unfolding id_generator_next_def by simp
qed

lemma IDIterator_run_Suc:
  assumes "IDIterator_run (Suc K) s = Some xs"
  shows "\<exists>x s' rs. IDIterator_next s = Some (x, s') \<and> IDIterator_run K s' = Some rs \<and> xs = x # rs"
proof (cases "IDIterator_next s")
  case None
  with assms show ?thesis by simp
next
  case (Some p)
  obtain x s' where p: "p = (x, s')" by (cases p)
  show ?thesis
  proof (cases "IDIterator_run K s'")
    case None
    with assms Some p show ?thesis by simp
  next
    case (Some rs)
    with assms \<open>IDIterator_next s = Some p\<close> p show ?thesis by simp
  qed
qed

lemma id_generator_run_Suc:
  assumes "id_generator_run (Suc K) g = Some ys"
  shows "\<exists>x g' rs. id_generator_next g = Some (x, g') \<and> id_generator_run K g' = Some rs \<and> ys = x # rs"
proof (cases "id_generator_next g")
  case None
  with assms show ?thesis by simp
next
  case (Some p)
  obtain x g' where p: "p = (x, g')" by (cases p)
  show ?thesis
  proof (cases "id_generator_run K g'")
    case None
    with assms Some p show ?thesis by simp
  next
    case (Some rs)
    with assms \<open>id_generator_next g = Some p\<close> p show ?thesis by simp
  qed
qed

lemma IDIterator_run_returns: "\<exists>xs. IDIterator_run K s = Some xs"
proof (induction K arbitrary: s)
  case 0
  show ?case by simp
next
  case (Suc K)
  from IDIterator_next_returns [of s] obtain y where "IDIterator_next s = Some y" ..
  moreover obtain r s' where "y = (r, s')" by (cases y)
  moreover from Suc [of s'] obtain rs where "IDIterator_run K s' = Some rs" ..
  ultimately show ?case by simp
qed

lemma id_generator_run_returns: "\<exists>ys. id_generator_run K g = Some ys"
proof (induction K arbitrary: g)
  case 0
  show ?case by simp
next
  case (Suc K)
  from id_generator_next_returns [of g] obtain y where "id_generator_next g = Some y" ..
  moreover obtain r g' where "y = (r, g')" by (cases y)
  moreover from Suc [of g'] obtain rs where "id_generator_run K g' = Some rs" ..
  ultimately show ?case by simp
qed

lemma IDIterator_run_emissions:
  "IDIterator_run K s = Some xs \<Longrightarrow>
     (\<forall>r\<in>set (ids xs). self_id s \<le> r \<and> check_id_valid r = Inr True) \<and> sorted_wrt (<) (ids xs)"
proof (induction K arbitrary: s xs)
  case 0
  then show ?case by simp
next
  case (Suc K)
  from IDIterator_run_Suc [OF Suc.prems] obtain x s' rs where
    st: "IDIterator_next s = Some (x, s')" and run: "IDIterator_run K s' = Some rs"
    and xs: "xs = x # rs"
    by blast
  from Suc.IH [OF run] have
    IH1: "\<forall>r\<in>set (ids rs). self_id s' \<le> r \<and> check_id_valid r = Inr True"
    and IH2: "sorted_wrt (<) (ids rs)"
    by simp_all
  show ?case
  proof (cases x)
    case (Inl e)
    from st have "self_id s \<le> self_id s'" unfolding Inl by (rule IDIterator_next_fails)
    with IH1 have "\<forall>r\<in>set (ids rs). self_id s \<le> r \<and> check_id_valid r = Inr True"
      by fastforce
    with IH2 show ?thesis unfolding xs Inl by simp
  next
    case (Inr r)
    from st have e: "self_id s \<le> r \<and> check_id_valid r = Inr True \<and> s' = \<lparr>self_id = r + 1\<rparr>"
      unfolding Inr by (rule IDIterator_next_emits)
    then have c: "self_id s' = r + 1" by simp
    from IH1 have later: "\<forall>q\<in>set (ids rs). r < q \<and> check_id_valid q = Inr True"
      unfolding c by fastforce
    with e have "\<forall>q\<in>set (ids rs). self_id s \<le> q \<and> check_id_valid q = Inr True"
      by fastforce
    with later e IH2 show ?thesis unfolding xs Inr by simp
  qed
qed

lemma id_generator_run_emissions:
  "id_generator_run K g = Some ys \<Longrightarrow>
     (\<forall>r\<in>set (ids ys). check_id_valid r = Inr True
        \<and> (case g of Created n \<Rightarrow> n \<le> r | Suspended n \<Rightarrow> n < r | Finished \<Rightarrow> False))
     \<and> sorted_wrt (<) (ids ys)"
proof (induction K arbitrary: g ys)
  case 0
  then show ?case by simp
next
  case (Suc K)
  from id_generator_run_Suc [OF Suc.prems] obtain x g' rs where
    st: "id_generator_next g = Some (x, g')" and run: "id_generator_run K g' = Some rs"
    and ys: "ys = x # rs"
    by blast
  from Suc.IH [OF run] have
    IH1: "\<forall>r\<in>set (ids rs). check_id_valid r = Inr True
        \<and> (case g' of Created n \<Rightarrow> n \<le> r | Suspended n \<Rightarrow> n < r | Finished \<Rightarrow> False)"
    and IH2: "sorted_wrt (<) (ids rs)"
    by simp_all
  show ?case
  proof (cases x)
    case (Inl e)
    from st have "g' = Finished" unfolding Inl by (rule id_generator_next_fails)
    with IH1 have none: "\<forall>r\<in>set (ids rs). False" by simp
    have "ids rs = []"
    proof (cases "ids rs")
      case Nil
      then show ?thesis .
    next
      case (Cons a l)
      then have "a \<in> set (ids rs)" by simp
      with none show ?thesis by blast
    qed
    then show ?thesis unfolding ys Inl by simp
  next
    case (Inr r)
    from st have e: "check_id_valid r = Inr True \<and> g' = Suspended r
      \<and> (case g of Created n \<Rightarrow> n \<le> r | Suspended n \<Rightarrow> n < r | Finished \<Rightarrow> False)"
      unfolding Inr by (rule id_generator_next_emits)
    then have g': "g' = Suspended r" by simp
    from IH1 have later: "\<forall>q\<in>set (ids rs). check_id_valid q = Inr True \<and> r < q"
      unfolding g' by simp
    have floor: "\<forall>q\<in>set (ids rs). case g of Created n \<Rightarrow> n \<le> q | Suspended n \<Rightarrow> n < q | Finished \<Rightarrow> False"
    proof (cases g)
      case (Created n)
      with e have "n \<le> r" by simp
      with later show ?thesis unfolding Created by fastforce
    next
      case (Suspended n)
      with e have "n < r" by simp
      with later show ?thesis unfolding Suspended by fastforce
    next
      case Finished
      with e show ?thesis by simp
    qed
    from later floor e IH2 show ?thesis unfolding ys Inr by simp
  qed
qed

text \<open>
  C6: for every iterator state, every generator state and every number of requests, the ids
  emitted are all valid, strictly increasing and hence pairwise distinct; and an emission
  moves the cursor strictly upwards: the iterator's cursor becomes the emitted id plus one,
  and the generator is suspended at the emitted id, above where it stood.
\<close>

theorem emissions_valid_and_increasing:
  "\<exists>xs ys. IDIterator_run K s = Some xs \<and> id_generator_run K g = Some ys
     \<and> (\<forall>r\<in>set (ids xs). check_id_valid r = Inr True)
     \<and> sorted_wrt (<) (ids xs) \<and> distinct (ids xs)
     \<and> (\<forall>r\<in>set (ids ys). check_id_valid r = Inr True)
     \<and> sorted_wrt (<) (ids ys) \<and> distinct (ids ys)
     \<and> (\<forall>r s'. IDIterator_next s = Some (Inr r, s') \<longrightarrow>
            self_id s \<le> r \<and> self_id s' = r + 1 \<and> self_id s < self_id s')
     \<and> (\<forall>r g'. id_generator_next g = Some (Inr r, g') \<longrightarrow>
            g' = Suspended r
            \<and> (case g of Created n \<Rightarrow> n \<le> r | Suspended n \<Rightarrow> n < r | Finished \<Rightarrow> False))"
proof -
  from IDIterator_run_returns [of K s] obtain xs where xs: "IDIterator_run K s = Some xs" ..
  from id_generator_run_returns [of K g] obtain ys where ys: "id_generator_run K g = Some ys" ..
  from IDIterator_run_emissions [OF xs] have
    x1: "\<forall>r\<in>set (ids xs). check_id_valid r = Inr True" and x2: "sorted_wrt (<) (ids xs)"
    by simp_all
  from id_generator_run_emissions [OF ys] have
    y1: "\<forall>r\<in>set (ids ys). check_id_valid r = Inr True" and y2: "sorted_wrt (<) (ids ys)"
    by simp_all
  from x2 have x3: "distinct (ids xs)" by (simp add: strict_sorted_iff)
  from y2 have y3: "distinct (ids ys)" by (simp add: strict_sorted_iff)
  have it: "\<forall>r s'. IDIterator_next s = Some (Inr r, s') \<longrightarrow>
            self_id s \<le> r \<and> self_id s' = r + 1 \<and> self_id s < self_id s'"
  proof (intro allI impI)
    fix r s'
    assume "IDIterator_next s = Some (Inr r, s')"
    from IDIterator_next_emits [OF this]
    show "self_id s \<le> r \<and> self_id s' = r + 1 \<and> self_id s < self_id s'" by simp
  qed
  have gen: "\<forall>r g'. id_generator_next g = Some (Inr r, g') \<longrightarrow>
            g' = Suspended r
            \<and> (case g of Created n \<Rightarrow> n \<le> r | Suspended n \<Rightarrow> n < r | Finished \<Rightarrow> False)"
  proof (intro allI impI)
    fix r g'
    assume "id_generator_next g = Some (Inr r, g')"
    from id_generator_next_emits [OF this]
    show "g' = Suspended r
            \<and> (case g of Created n \<Rightarrow> n \<le> r | Suspended n \<Rightarrow> n < r | Finished \<Rightarrow> False)"
      by simp
  qed
  from xs ys x1 x2 x3 y1 y2 y3 it gen show ?thesis by blast
qed

theorem emissions_valid_and_increasing_witness:
  "IDIterator_run 1 \<lparr>self_id = 100000009\<rparr> = Some [Inr 100000009]
     \<and> id_generator_run 1 (Created 100000009) = Some [Inr 100000009]
     \<and> check_id_valid 100000009 = Inr True
     \<and> sorted_wrt (<) (ids [Inr 100000009 :: exn + int])
     \<and> distinct (ids [Inr 100000009 :: exn + int])
     \<and> self_id \<lparr>self_id = 100000009\<rparr> < self_id \<lparr>self_id = 100000009 + 1\<rparr>"
proof -
  have it: "IDIterator_next \<lparr>self_id = 100000009\<rparr> = Some (Inr 100000009, \<lparr>self_id = 100000009 + 1\<rparr>)"
    using IDIterator_next_valid [of "\<lparr>self_id = 100000009\<rparr>"] valid_100000009 by simp
  then have xs: "IDIterator_run 1 \<lparr>self_id = 100000009\<rparr> = Some [Inr 100000009]"
    by simp
  have "id_generator_loop 100000009 = Some (Inr 100000009, Suspended 100000009)"
    using valid_100000009 by (rule id_generator_loop_valid) simp
  then have "id_generator_next (Created 100000009) = Some (Inr 100000009, Suspended 100000009)"
    by (simp add: id_generator_next_def length_str_int_in_range)
  then have ys: "id_generator_run 1 (Created 100000009) = Some [Inr 100000009]"
    by simp
  from emissions_valid_and_increasing [of 1 "\<lparr>self_id = 100000009\<rparr>" "Created 100000009"]
  obtain xs' ys' where p: "IDIterator_run 1 \<lparr>self_id = 100000009\<rparr> = Some xs'"
    "id_generator_run 1 (Created 100000009) = Some ys'"
    "\<forall>r\<in>set (ids xs'). check_id_valid r = Inr True"
    "sorted_wrt (<) (ids xs')" "distinct (ids xs')"
    "\<forall>r s'. IDIterator_next \<lparr>self_id = 100000009\<rparr> = Some (Inr r, s') \<longrightarrow>
            self_id \<lparr>self_id = 100000009\<rparr> \<le> r \<and> self_id s' = r + 1
            \<and> self_id \<lparr>self_id = 100000009\<rparr> < self_id s'"
    by blast
  from p(1) xs have e: "xs' = [Inr 100000009]" by simp
  from p(6) it have "self_id \<lparr>self_id = 100000009\<rparr> < self_id \<lparr>self_id = 100000009 + 1\<rparr>"
    by blast
  moreover from p(3) have "check_id_valid 100000009 = Inr True" unfolding e by simp
  ultimately show ?thesis using xs ys p(4,5) unfolding e by blast
qed

lemma digit_unique:
  assumes "0 \<le> d" and "d \<le> 9"
  shows "((p + d) mod 10 = 0) = (d = (- p) mod (10::int))"
proof
  assume "(p + d) mod 10 = 0"
  then have "10 dvd p + d" by (simp only: mod_eq_0_iff_dvd)
  then obtain k where "p + d = 10 * k" ..
  then have "- p = d + 10 * (- k)" by simp
  then have "(- p) mod 10 = (d + 10 * (- k)) mod 10" by (simp only:)
  also have "\<dots> = d mod 10" by (simp only: mod_mult_self2)
  also have "\<dots> = d" using assms by simp
  finally show "d = (- p) mod 10" by (simp only:)
next
  assume "d = (- p) mod 10"
  then have "(p + d) mod 10 = (p + (- p) mod 10) mod 10" by (simp only:)
  also have "\<dots> = (p + (- p)) mod 10" by (simp only: mod_add_right_eq)
  also have "\<dots> = 0" by simp
  finally show "(p + d) mod 10 = 0" .
qed

lemma div_decade: "(n::int) div (10 * k) = n div 10 div k" if "0 < k"
  using that by (simp add: zdiv_zmult2_eq)

lemma spec_sum_decade:
  assumes "0 \<le> d" and "d \<le> 9"
  shows "spec_sum (10 * q + d) = prefix_sum q + d"
proof -
  let ?n = "10 * q + d"
  have d1: "?n div 10 = q" and m: "?n mod 10 = d" using assms by simp_all
  have "?n div 100 = ?n div 10 div 10" using div_decade [of 10 ?n] by simp
  then have d2: "?n div 100 = q div 10" unfolding d1 .
  have "?n div 1000 = ?n div 10 div 100" using div_decade [of 100 ?n] by simp
  then have d3: "?n div 1000 = q div 100" unfolding d1 .
  have "?n div 10000 = ?n div 10 div 1000" using div_decade [of 1000 ?n] by simp
  then have d4: "?n div 10000 = q div 1000" unfolding d1 .
  have "?n div 100000 = ?n div 10 div 10000" using div_decade [of 10000 ?n] by simp
  then have d5: "?n div 100000 = q div 10000" unfolding d1 .
  have "?n div 1000000 = ?n div 10 div 100000" using div_decade [of 100000 ?n] by simp
  then have d6: "?n div 1000000 = q div 100000" unfolding d1 .
  have "?n div 10000000 = ?n div 10 div 1000000" using div_decade [of 1000000 ?n] by simp
  then have d7: "?n div 10000000 = q div 1000000" unfolding d1 .
  have "?n div 100000000 = ?n div 10 div 10000000" using div_decade [of 10000000 ?n] by simp
  then have d8: "?n div 100000000 = q div 10000000" unfolding d1 .
  have r: "red d = d" using assms by (simp add: red_def)
  show ?thesis
    unfolding spec_sum_red d1 d2 d3 d4 d5 d6 d7 d8 m r prefix_sum_def ..
qed

lemma valid_in_decade:
  assumes "10000000 \<le> q" and "q \<le> 99999999" and "0 \<le> d" and "d \<le> 9"
  shows "check_id_valid (10 * q + d) = Inr (d = (- prefix_sum q) mod 10)"
proof -
  have "100000000 \<le> 10 * q + d" "10 * q + d \<le> 999999999" using assms by linarith+
  then have "check_id_valid (10 * q + d) = Inr (spec_is_valid (10 * q + d))"
    by (rule check_id_valid_in_range)
  moreover have "((prefix_sum q + d) mod 10 = 0) = (d = (- prefix_sum q) mod 10)"
    using assms(3,4) by (rule digit_unique)
  ultimately show ?thesis
    by (simp add: spec_is_valid_def spec_sum_decade [OF assms(3,4)])
qed

lemma unique_check_digit:
  assumes "100000000 \<le> n" and "n \<le> 999999999"
  shows "\<exists>!d. 0 \<le> d \<and> d \<le> 9 \<and> check_id_valid (n - n mod 10 + d) = Inr True"
proof -
  define q where "q = n div 10"
  have q: "10000000 \<le> q" "q \<le> 99999999" using assms unfolding q_def by linarith+
  have n: "n - n mod 10 = 10 * q" unfolding q_def by (rule minus_mod_eq_mult_div)
  define d0 where "d0 = (- prefix_sum q) mod 10"
  have d0: "0 \<le> d0" "d0 \<le> 9" unfolding d0_def by simp_all
  show ?thesis
  proof (rule ex1I [of _ d0])
    show "0 \<le> d0 \<and> d0 \<le> 9 \<and> check_id_valid (n - n mod 10 + d0) = Inr True"
      using d0 valid_in_decade [OF q d0] unfolding n d0_def by simp
  next
    fix d
    assume a: "0 \<le> d \<and> d \<le> 9 \<and> check_id_valid (n - n mod 10 + d) = Inr True"
    then have "0 \<le> d" "d \<le> 9" by simp_all
    from valid_in_decade [OF q this] a show "d = d0" unfolding n d0_def by simp
  qed
qed

lemma valid_in_block:
  assumes "10000000 \<le> q" and "q \<le> 99999999"
  shows "\<exists>m. 10 * q \<le> m \<and> m \<le> 10 * q + 9 \<and> check_id_valid m = Inr True"
proof -
  define d0 where "d0 = (- prefix_sum q) mod 10"
  have d0: "0 \<le> d0" "d0 \<le> 9" unfolding d0_def by simp_all
  from valid_in_decade [OF assms d0] have "check_id_valid (10 * q + d0) = Inr True"
    unfolding d0_def by simp
  moreover have "10 * q \<le> 10 * q + d0" "10 * q + d0 \<le> 10 * q + 9" using d0 by linarith+
  ultimately show ?thesis by blast
qed

lemma valid_999999998: "check_id_valid 999999998 = Inr True"
  by (simp add: check_id_valid_in_range spec_is_valid_def spec_sum_red red_def)

lemma valid_within_window:
  assumes "100000000 \<le> c" and "c \<le> 999999998"
  shows "\<exists>m. c \<le> m \<and> m \<le> c + 18 \<and> check_id_valid m = Inr True"
proof (cases "999999990 \<le> c")
  case True
  with assms(2) have "c \<le> 999999998" "999999998 \<le> c + 18" by linarith+
  with valid_999999998 show ?thesis by blast
next
  case False
  define q where "q = c div 10"
  have q: "10000000 \<le> q" "q \<le> 99999998" using assms False unfolding q_def by linarith+
  have c: "10 * q \<le> c" "c \<le> 10 * q + 9" unfolding q_def by linarith+
  from q have "10000000 \<le> q" "q \<le> 99999999" by linarith+
  from valid_in_block [OF this] obtain m0 where
    m0: "10 * q \<le> m0" "m0 \<le> 10 * q + 9" "check_id_valid m0 = Inr True" by blast
  show ?thesis
  proof (cases "c \<le> m0")
    case True
    with m0 c have "c \<le> m0" "m0 \<le> c + 18" by linarith+
    with m0(3) show ?thesis by blast
  next
    case False
    from q have "10000000 \<le> q + 1" "q + 1 \<le> 99999999" by linarith+
    from valid_in_block [OF this] obtain m1 where
      m1: "10 * (q + 1) \<le> m1" "m1 \<le> 10 * (q + 1) + 9" "check_id_valid m1 = Inr True" by blast
    from m1(1,2) have b: "10 * q + 10 \<le> m1" "m1 \<le> 10 * q + 19" by simp_all
    from False have "m0 + 1 \<le> c" by simp
    with m0(1) have a: "10 * q + 1 \<le> c" by simp
    from c(2) b(1) have "c \<le> m1" by simp
    moreover from a b(2) have "m1 \<le> c + 18" by simp
    ultimately have "c \<le> m1" "m1 \<le> c + 18" .
    with m1(3) show ?thesis by blast
  qed
qed

lemmas check_eval = check_id_valid_in_range spec_is_valid_def spec_sum_red red_def

text \<open>
  C9, as stated, fails at the cursor 100000042: none of the ten ids 100000042 to 100000051
  is valid (the valid ids around them are 100000041 and 100000058), so the window from the
  cursor to the cursor plus nine holds no valid id and the search tests more than ten
  candidates.
\<close>

theorem no_valid_id_in_window_of_ten:
  "check_id_valid 100000042 = Inr False \<and> check_id_valid 100000043 = Inr False
     \<and> check_id_valid 100000044 = Inr False \<and> check_id_valid 100000045 = Inr False
     \<and> check_id_valid 100000046 = Inr False \<and> check_id_valid 100000047 = Inr False
     \<and> check_id_valid 100000048 = Inr False \<and> check_id_valid 100000049 = Inr False
     \<and> check_id_valid 100000050 = Inr False \<and> check_id_valid 100000051 = Inr False
     \<and> check_id_valid 100000041 = Inr True \<and> check_id_valid 100000058 = Inr True"
proof -
  have "check_id_valid 100000042 = Inr False" by (simp add: check_eval)
  moreover have "check_id_valid 100000043 = Inr False" by (simp add: check_eval)
  moreover have "check_id_valid 100000044 = Inr False" by (simp add: check_eval)
  moreover have "check_id_valid 100000045 = Inr False" by (simp add: check_eval)
  moreover have "check_id_valid 100000046 = Inr False" by (simp add: check_eval)
  moreover have "check_id_valid 100000047 = Inr False" by (simp add: check_eval)
  moreover have "check_id_valid 100000048 = Inr False" by (simp add: check_eval)
  moreover have "check_id_valid 100000049 = Inr False" by (simp add: check_eval)
  moreover have "check_id_valid 100000050 = Inr False" by (simp add: check_eval)
  moreover have "check_id_valid 100000051 = Inr False" by (simp add: check_eval)
  moreover have "check_id_valid 100000041 = Inr True" by (simp add: check_eval)
  moreover have "check_id_valid 100000058 = Inr True" by (simp add: check_eval)
  ultimately show ?thesis by blast
qed

text \<open>
  C9, amended: for every nine-digit integer \<open>n\<close> exactly one digit \<open>d\<close> in 0..9 makes
  \<open>check_id_valid\<close> true when the last digit of \<open>n\<close> is replaced by \<open>d\<close>; consequently,
  for every cursor value \<open>c\<close> in 100000000..999999998 there is a valid id between \<open>c\<close> and
  \<open>c + 18\<close>, and a forward search from \<open>c\<close> emits an id after testing at most 19
  candidates.
\<close>

theorem unique_check_digit_and_scan_bound:
  assumes "100000000 \<le> n" and "n \<le> 999999999"
    and "100000000 \<le> c" and "c \<le> 999999998"
  shows "(\<exists>!d. 0 \<le> d \<and> d \<le> 9 \<and> check_id_valid (n - n mod 10 + d) = Inr True)
     \<and> (\<exists>r. c \<le> r \<and> r \<le> c + 18 \<and> check_id_valid r = Inr True
            \<and> (\<forall>k. c \<le> k \<and> k < r \<longrightarrow> check_id_valid k = Inr False)
            \<and> IDIterator_next \<lparr>self_id = c\<rparr> = Some (Inr r, \<lparr>self_id = r + 1\<rparr>)
            \<and> id_generator_loop c = Some (Inr r, Suspended r))"
proof
  show "\<exists>!d. 0 \<le> d \<and> d \<le> 9 \<and> check_id_valid (n - n mod 10 + d) = Inr True"
    using assms(1,2) by (rule unique_check_digit)
next
  from valid_within_window [OF assms(3,4)] obtain m where
    m: "c \<le> m" "m \<le> c + 18" "check_id_valid m = Inr True" by blast
  from scan_first [OF assms(3) m(1,3)] obtain r where
    r: "c \<le> r" "r \<le> m" "check_id_valid r = Inr True"
      "\<forall>k. c \<le> k \<and> k < r \<longrightarrow> check_id_valid k = Inr False"
      "IDIterator_next \<lparr>self_id = c\<rparr> = Some (Inr r, \<lparr>self_id = r + 1\<rparr>)"
      "id_generator_loop c = Some (Inr r, Suspended r)"
    by blast
  from r(2) m(2) have "r \<le> c + 18" by simp
  with r show "\<exists>r. c \<le> r \<and> r \<le> c + 18 \<and> check_id_valid r = Inr True
            \<and> (\<forall>k. c \<le> k \<and> k < r \<longrightarrow> check_id_valid k = Inr False)
            \<and> IDIterator_next \<lparr>self_id = c\<rparr> = Some (Inr r, \<lparr>self_id = r + 1\<rparr>)
            \<and> id_generator_loop c = Some (Inr r, Suspended r)"
    by blast
qed

theorem unique_check_digit_and_scan_bound_witness:
  "(\<exists>!d. 0 \<le> d \<and> d \<le> 9 \<and> check_id_valid (100000042 - 100000042 mod 10 + d) = Inr True)
     \<and> (\<exists>r. 100000042 \<le> r \<and> r \<le> 100000042 + 18 \<and> check_id_valid r = Inr True
            \<and> (\<forall>k. 100000042 \<le> k \<and> k < r \<longrightarrow> check_id_valid k = Inr False)
            \<and> IDIterator_next \<lparr>self_id = 100000042\<rparr> = Some (Inr r, \<lparr>self_id = r + 1\<rparr>)
            \<and> id_generator_loop 100000042 = Some (Inr r, Suspended r))"
proof -
  have h1: "(100000000::int) \<le> 100000042" and h2: "(100000042::int) \<le> 999999999"
    and h4: "(100000042::int) \<le> 999999998" by simp_all
  show ?thesis
    by (rule unique_check_digit_and_scan_bound [OF h1 h2 h1 h4])
qed

end
